theory Spec2Isabelle
  imports Main
begin

section \<open>Day 15: coverage ranges of sensors on a row\<close>

text \<open>
  A coverage range is the Python tuple \<open>(start, end)\<close> of unbounded integers, both ends
  inclusive. Indexing an empty list raises \<open>IndexError\<close>, reading a missing key of a
  dictionary raises \<open>KeyError\<close>.
\<close>

type_synonym range = "int \<times> int"

datatype error = IndexError | KeyError

subsection \<open>\<open>blend_coverage_ranges\<close>\<close>

text \<open>
  One iteration of the loop body of \<open>blend_coverage_ranges\<close>: \<open>blended\<close> is the list
  \<open>blended_ranges\<close>, whose last element is read and possibly replaced.
\<close>

definition blend_step :: "range list \<Rightarrow> range \<Rightarrow> range list" where
  "blend_step blended r =
     (case r of (start, stop) \<Rightarrow>
        (case last blended of (last_start, last_end) \<Rightarrow>
           if start \<le> last_end + 1 \<and> stop \<ge> last_end
             then butlast blended @ [(last_start, stop)]
           else if start \<le> last_end \<and> stop \<le> last_end
             then blended
           else blended @ [(start, stop)]))"

text \<open>
  \<open>sorted(ranges, key=lambda x: x[0])\<close> is a stable sort on the start, as \<open>sort_key fst\<close>
  is; \<open>ranges[0]\<close> on the empty list raises.
\<close>

definition blend_coverage_ranges :: "range list \<Rightarrow> error + range list" where
  "blend_coverage_ranges ranges =
     (case sort_key fst ranges of
        [] \<Rightarrow> Inl IndexError
      | r0 # rest \<Rightarrow> Inr (foldl blend_step [r0] (r0 # rest)))"

subsection \<open>Coordinates and sensors\<close>

text \<open>
  Modelled from the spec: the class \<open>Coord\<close> of \<open>day_15/coord.py\<close>, which is not among
  the sources. The spec gives it as an immutable integer pair \<open>(x, y)\<close>, compared by value,
  with the Manhattan distance to another coordinate.
\<close>

datatype coord = Coord (cx: int) (cy: int)

definition distance :: "coord \<Rightarrow> coord \<Rightarrow> int" where
  "distance a b = \<bar>cx a - cx b\<bar> + \<bar>cy a - cy b\<bar>"

text \<open>
  Modelled from the spec: the class \<open>Sensor\<close> of \<open>day_15/sensor.py\<close>, which is not among
  the sources: a coordinate plus a scan radius (the fields \<open>coord\<close> and \<open>scan_range\<close> that
  \<open>get_scan_coverage_bounds\<close> reads).
\<close>

datatype sensor = Sensor (coord: coord) (scan_range: int)

text \<open>
  Modelled from the spec: the method \<open>Sensor.get_coverage_at_row\<close>, which is not among the
  sources; the spec names it \<open>compute_row_interval\<close>: it computes
  \<open>span = radius - |row - sensor.y|\<close>, returns absent if \<open>span < 0\<close> and otherwise
  \<open>[sensor.x - span, sensor.x + span]\<close>.
\<close>

definition get_coverage_at_row :: "sensor \<Rightarrow> int \<Rightarrow> range option" where
  "get_coverage_at_row sensor row =
     (let span = scan_range sensor - \<bar>row - cy (coord sensor)\<bar>
      in if span < 0 then None
         else Some (cx (coord sensor) - span, cx (coord sensor) + span))"

subsection \<open>\<open>get_sensors_coverage_at_row\<close>\<close>

text \<open>
  The set of sensors is a list in the order in which the comprehension iterates over it.
  A tuple is truthy, \<open>None\<close> is not: the comprehension keeps the ranges of the sensors
  that reach the row, and passes them to \<open>blend_coverage_ranges\<close> whatever their number.
\<close>

definition get_sensors_coverage_at_row :: "sensor list \<Rightarrow> int \<Rightarrow> error + range list" where
  "get_sensors_coverage_at_row sensors row =
     (let coverage_ranges =
            map (\<lambda>sensor. the (get_coverage_at_row sensor row))
              (filter (\<lambda>sensor. get_coverage_at_row sensor row \<noteq> None) sensors)
      in blend_coverage_ranges coverage_ranges)"

subsection \<open>\<open>part1\<close>\<close>

text \<open>
  The dictionary \<open>data\<close> is the list of its items in insertion order (the keys are
  distinct). \<open>sensors\<close> is built as a set, so equal sensors are kept once.
\<close>

type_synonym data = "(coord \<times> coord) list"

definition make_sensors :: "data \<Rightarrow> sensor list" where
  "make_sensors data =
     remdups (map (\<lambda>(sensor, beacon). Sensor sensor (distance sensor beacon)) data)"

definition part1 :: "data \<Rightarrow> int \<Rightarrow> error + int" where
  "part1 data row =
     (let sensors = make_sensors data
      in case get_sensors_coverage_at_row sensors row of
           Inl e \<Rightarrow> Inl e
         | Inr covered_at_row \<Rightarrow>
             (let beacons_at_row = remdups (filter (\<lambda>beacon. cy beacon = row) (map snd data));
                  covered = sum_list (map (\<lambda>(start, stop). stop - start + 1) covered_at_row)
              in Inr (covered - int (length beacons_at_row))))"

subsection \<open>\<open>part2\<close>\<close>

fun is_covered :: "range list \<Rightarrow> int \<Rightarrow> bool" where
  "is_covered [] x = False"
| "is_covered ((start, stop) # coverage) x =
     (if start \<le> x \<and> x \<le> stop then True else is_covered coverage x)"

text \<open>\<open>itertools.pairwise\<close>: the successive overlapping pairs of a list.\<close>

fun pairwise_list :: "'a list \<Rightarrow> ('a \<times> 'a) list" where
  "pairwise_list [] = []"
| "pairwise_list [a] = []"
| "pairwise_list (a # b # rest) = (a, b) # pairwise_list (b # rest)"

text \<open>
  The first loop of \<open>part2\<close>, over the rows of \<open>range(0, search_area_size + 1)\<close>. The state
  is the dictionary \<open>row_coverage\<close> and the list \<open>row_candidates\<close>; an exception of
  \<open>get_sensors_coverage_at_row\<close> ends the loop.
\<close>

type_synonym row_coverage = "int \<rightharpoonup> range list"

fun scan_rows ::
  "sensor list \<Rightarrow> int list \<Rightarrow> row_coverage \<times> int list \<Rightarrow> error + (row_coverage \<times> int list)"
where
  "scan_rows sensors [] st = Inr st"
| "scan_rows sensors (row # rows) (row_coverage, row_candidates) =
     (case get_sensors_coverage_at_row sensors row of
        Inl e \<Rightarrow> Inl e
      | Inr coverage \<Rightarrow>
          if coverage \<noteq> [] then
            scan_rows sensors rows
              (row_coverage(row \<mapsto> coverage),
               if length coverage > 1 then row_candidates @ [row] else row_candidates)
          else scan_rows sensors rows (row_coverage, row_candidates))"

text \<open>
  \<open>is_covered(c, x) if c else False\<close>, for \<open>c = row_coverage.get(r)\<close>: \<open>None\<close> and the
  empty list are both falsy.
\<close>

definition covered_in :: "row_coverage \<Rightarrow> int \<Rightarrow> int \<Rightarrow> bool" where
  "covered_in row_coverage r x =
     (case row_coverage r of
        None \<Rightarrow> False
      | Some c \<Rightarrow> if c \<noteq> [] then is_covered c x else False)"

text \<open>
  The inner loop of the search, over the pairs \<open>(left, right)\<close> of one row. It returns the
  pair \<open>(x, row)\<close> at which \<open>part2\<close> returns \<open>x * 4_000_000 + row\<close>, or \<open>None\<close> when the loop
  ends.
\<close>

fun check_pairs :: "row_coverage \<Rightarrow> int \<Rightarrow> (range \<times> range) list \<Rightarrow> (int \<times> int) option" where
  "check_pairs row_coverage row [] = None"
| "check_pairs row_coverage row ((left, right) # pairs) =
     (if fst right - snd left = 2 then
        (let x = snd left + 1;
             covered_above = covered_in row_coverage (row - 1) x;
             covered_below = covered_in row_coverage (row + 1) x
         in if covered_above \<and> covered_below then Some (x, row)
            else check_pairs row_coverage row pairs)
      else check_pairs row_coverage row pairs)"

text \<open>
  The outer loop of the search, over \<open>row_candidates\<close>. \<open>row_coverage[row]\<close> raises
  \<open>KeyError\<close> on a missing key.
\<close>

fun search_candidates :: "row_coverage \<Rightarrow> int list \<Rightarrow> error + (int \<times> int) option" where
  "search_candidates row_coverage [] = Inr None"
| "search_candidates row_coverage (row # rows) =
     (case row_coverage row of
        None \<Rightarrow> Inl KeyError
      | Some coverage \<Rightarrow>
          (case check_pairs row_coverage row (pairwise_list coverage) of
             Some found \<Rightarrow> Inr (Some found)
           | None \<Rightarrow> search_candidates row_coverage rows))"

text \<open>
  \<open>part2_search\<close> is \<open>part2\<close> up to its \<open>return\<close> statements: \<open>Some (x, row)\<close> where
  \<open>part2\<close> returns \<open>x * 4_000_000 + row\<close>, \<open>None\<close> where it returns \<open>-1\<close>.
\<close>

definition part2_search :: "data \<Rightarrow> int \<Rightarrow> error + (int \<times> int) option" where
  "part2_search data search_area_size =
     (let sensors = make_sensors data
      in case scan_rows sensors [0 .. search_area_size] (Map.empty, []) of
           Inl e \<Rightarrow> Inl e
         | Inr (row_coverage, row_candidates) \<Rightarrow>
             search_candidates row_coverage row_candidates)"

definition part2 :: "data \<Rightarrow> int \<Rightarrow> error + int" where
  "part2 data search_area_size =
     (case part2_search data search_area_size of
        Inl e \<Rightarrow> Inl e
      | Inr (Some (x, row)) \<Rightarrow> Inr (x * 4000000 + row)
      | Inr None \<Rightarrow> Inr (- 1))"

subsection \<open>\<open>parse\<close>\<close>

text \<open>
  \<open>str.splitlines\<close> on a string of 8-bit characters: a line ends at \<open>\n\<close>, \<open>\r\<close>,
  \<open>\r\n\<close>, \<open>\v\<close>, \<open>\f\<close>, \<open>\x1c\<close>, \<open>\x1d\<close>, \<open>\x1e\<close> or \<open>\x85\<close>; the line ends are
  dropped, and no empty last line is produced.
\<close>

definition is_linebreak :: "char \<Rightarrow> bool" where
  "is_linebreak c =
     (c \<in> set [CHR 0x0A, CHR 0x0D, CHR 0x0B, CHR 0x0C, CHR 0x1C, CHR 0x1D, CHR 0x1E, CHR 0x85])"

fun splitlines_from :: "string \<Rightarrow> string \<Rightarrow> string list" where
  "splitlines_from cur [] = (if cur = [] then [] else [cur])"
| "splitlines_from cur [c] =
     (if is_linebreak c then [cur] else [cur @ [c]])"
| "splitlines_from cur (c # c' # cs) =
     (if c = CHR 0x0D \<and> c' = CHR 0x0A then cur # splitlines_from [] cs
      else if is_linebreak c then cur # splitlines_from [] (c' # cs)
      else splitlines_from (cur @ [c]) (c' # cs))"

definition splitlines :: "string \<Rightarrow> string list" where
  "splitlines s = splitlines_from [] s"

text \<open>
  The pattern \<open>input_regex\<close> is anchored at both ends and is made of literal text and four
  groups \<open>(\d+)\<close>. Each group is followed by a character that is not a digit, or by the
  end of the line, so a group can only match the longest run of digits at its place.
  Among the 8-bit characters \<open>\d\<close> matches \<open>0\<close> to \<open>9\<close>.
\<close>

definition is_digit :: "char \<Rightarrow> bool" where
  "is_digit c = (c \<in> set ''0123456789'')"

fun strip_prefix :: "string \<Rightarrow> string \<Rightarrow> string option" where
  "strip_prefix [] s = Some s"
| "strip_prefix (p # ps) [] = None"
| "strip_prefix (p # ps) (c # cs) = (if p = c then strip_prefix ps cs else None)"

definition digits1 :: "string \<Rightarrow> (string \<times> string) option" where
  "digits1 s =
     (let ds = takeWhile is_digit s
      in if ds = [] then None else Some (ds, dropWhile is_digit s))"

definition input_regex_match :: "string \<Rightarrow> (string \<times> string \<times> string \<times> string) option" where
  "input_regex_match line =
     (case strip_prefix ''Sensor at x='' line of None \<Rightarrow> None | Some r1 \<Rightarrow>
      case digits1 r1 of None \<Rightarrow> None | Some (g1, r2) \<Rightarrow>
      case strip_prefix '', y='' r2 of None \<Rightarrow> None | Some r3 \<Rightarrow>
      case digits1 r3 of None \<Rightarrow> None | Some (g2, r4) \<Rightarrow>
      case strip_prefix '': closest beacon is at x='' r4 of None \<Rightarrow> None | Some r5 \<Rightarrow>
      case digits1 r5 of None \<Rightarrow> None | Some (g3, r6) \<Rightarrow>
      case strip_prefix '', y='' r6 of None \<Rightarrow> None | Some r7 \<Rightarrow>
      case digits1 r7 of None \<Rightarrow> None | Some (g4, r8) \<Rightarrow>
      if r8 = [] then Some (g1, g2, g3, g4) else None)"

text \<open>\<open>int\<close> of a string of decimal digits.\<close>

definition int_of_digits :: "string \<Rightarrow> int" where
  "int_of_digits ds = foldl (\<lambda>acc c. acc * 10 + (of_char c - 48)) 0 ds"

text \<open>
  \<open>data[sensor] = beacon\<close>: a key already present keeps its place and takes the new
  value, a new key goes to the end.
\<close>

fun dict_set :: "('k \<times> 'v) list \<Rightarrow> 'k \<Rightarrow> 'v \<Rightarrow> ('k \<times> 'v) list" where
  "dict_set [] k v = [(k, v)]"
| "dict_set ((k', v') # d) k v = (if k' = k then (k, v) # d else (k', v') # dict_set d k v)"

definition parse_line :: "data \<Rightarrow> string \<Rightarrow> data" where
  "parse_line data line =
     (case input_regex_match line of
        None \<Rightarrow> data
      | Some (g1, g2, g3, g4) \<Rightarrow>
          (let sensor = Coord (int_of_digits g1) (int_of_digits g2);
               beacon = Coord (int_of_digits g3) (int_of_digits g4)
           in dict_set data sensor beacon))"

definition parse :: "string \<Rightarrow> data" where
  "parse puzzle_input = foldl parse_line [] (splitlines puzzle_input)"

section \<open>Example inputs\<close>

text \<open>
  The example of the puzzle statement, as the dictionary that \<open>part1\<close> and \<open>part2\<close> are
  given for it: on it the spec expects 26 on row 10 and 56000011 in the square of size 20.
\<close>

definition puzzle_example :: data where
  "puzzle_example =
     [(Coord 2 18, Coord (- 2) 15), (Coord 9 16, Coord 10 16), (Coord 13 2, Coord 15 3),
      (Coord 12 14, Coord 10 16), (Coord 10 20, Coord 10 16), (Coord 14 17, Coord 10 16),
      (Coord 8 7, Coord 2 10), (Coord 2 0, Coord 2 10), (Coord 0 11, Coord 2 10),
      (Coord 20 14, Coord 25 17), (Coord 17 20, Coord 21 22), (Coord 16 7, Coord 15 3),
      (Coord 14 3, Coord 15 3), (Coord 20 1, Coord 15 3)]"

text \<open>
  Four sensors around the point \<open>(10, 1)\<close>: two of radius 1 on its row, at distance 2 on
  either side, and two of radius 0 right above and right below it.
\<close>

definition offside_example :: data where
  "offside_example =
     [(Coord 8 1, Coord 9 1), (Coord 12 1, Coord 11 1),
      (Coord 10 0, Coord 10 0), (Coord 10 2, Coord 10 2)]"

section \<open>Vocabulary of the properties of ranges\<close>

definition wf_range :: "range \<Rightarrow> bool" where
  "wf_range r = (fst r \<le> snd r)"

definition points :: "range list \<Rightarrow> int set" where
  "points rs = (\<Union>r \<in> set rs. {fst r .. snd r})"

fun well_separated :: "range list \<Rightarrow> bool" where
  "well_separated [] = True"
| "well_separated [r] = True"
| "well_separated (r1 # r2 # rs) = (fst r2 - snd r1 \<ge> 2 \<and> well_separated (r2 # rs))"

definition pairwise_disjoint :: "range list \<Rightarrow> bool" where
  "pairwise_disjoint rs =
     (\<forall>i < length rs. \<forall>j < length rs. i \<noteq> j \<longrightarrow>
        {fst (rs ! i) .. snd (rs ! i)} \<inter> {fst (rs ! j) .. snd (rs ! j)} = {})"

definition canonical :: "range list \<Rightarrow> bool" where
  "canonical rs = ((\<forall>r \<in> set rs. wf_range r) \<and> well_separated rs)"

text \<open>The invariant of the list \<open>blended_ranges\<close> in the loop of \<open>blend_coverage_ranges\<close>.\<close>

definition blend_inv :: "range list \<Rightarrow> bool" where
  "blend_inv bl = (bl \<noteq> [] \<and> canonical bl)"

text \<open>The invariant of the dictionary in the loop of \<open>parse\<close>.\<close>

definition nonneg_data :: "data \<Rightarrow> bool" where
  "nonneg_data d = (\<forall>(sensor, beacon) \<in> set d.
      0 \<le> cx sensor \<and> 0 \<le> cy sensor \<and> 0 \<le> cx beacon \<and> 0 \<le> cy beacon)"

section \<open>Properties of \<open>blend_coverage_ranges\<close>\<close>

lemma points_Nil [simp]: "points [] = {}"
  by (simp add: points_def)

lemma points_Cons [simp]: "points (r # rs) = {fst r .. snd r} \<union> points rs"
  by (simp add: points_def)

lemma points_append [simp]: "points (xs @ ys) = points xs \<union> points ys"
  by (induction xs) auto

lemma points_set_cong: "set xs = set ys \<Longrightarrow> points xs = points ys"
  by (simp add: points_def)

lemma well_separated_snoc_replace:
  "well_separated (bs @ [(a, b)]) \<Longrightarrow> well_separated (bs @ [(a, c)])"
  by (induction bs rule: well_separated.induct) auto

lemma well_separated_snoc_add:
  "well_separated (bs @ [(a, b)]) \<Longrightarrow> 2 \<le> s - b \<Longrightarrow> well_separated (bs @ [(a, b), (s, e)])"
  by (induction bs rule: well_separated.induct) auto

lemma canonical_lower_bound:
  "well_separated (r # rs) \<Longrightarrow> \<forall>q \<in> set (r # rs). wf_range q \<Longrightarrow>
     \<forall>q \<in> set rs. snd r + 2 \<le> fst q"
proof (induction rs arbitrary: r)
  case Nil
  then show ?case by simp
next
  case (Cons a rs)
  have a: "snd r + 2 \<le> fst a" using Cons.prems(1) by simp
  have "\<forall>q \<in> set rs. snd a + 2 \<le> fst q"
    using Cons.IH [of a] Cons.prems by simp
  moreover have "fst a \<le> snd a" using Cons.prems(2) by (simp add: wf_range_def)
  ultimately show ?case using a by auto
qed

lemma canonical_sorted:
  "canonical rs \<Longrightarrow> sorted (map fst rs)"
proof (induction rs)
  case Nil
  then show ?case by simp
next
  case (Cons r rs)
  have sep: "well_separated (r # rs)" and wf: "\<forall>q \<in> set (r # rs). wf_range q"
    using Cons.prems by (simp_all add: canonical_def)
  have "well_separated rs" using sep by (cases rs) simp_all
  then have "canonical rs" using wf by (simp add: canonical_def)
  then have "sorted (map fst rs)" by (rule Cons.IH)
  moreover have "\<forall>q \<in> set rs. fst r \<le> fst q"
    using canonical_lower_bound [OF sep wf] wf by (auto simp: wf_range_def)
  ultimately show ?case by simp
qed

lemma canonical_disjoint_tail:
  "well_separated (r # rs) \<Longrightarrow> \<forall>q \<in> set (r # rs). wf_range q \<Longrightarrow>
     {fst r .. snd r} \<inter> points rs = {}"
  using canonical_lower_bound [of r rs] by (fastforce simp: points_def)

lemma canonical_pairwise_disjoint:
  "canonical rs \<Longrightarrow> pairwise_disjoint rs"
proof (induction rs)
  case Nil
  then show ?case by (simp add: pairwise_disjoint_def)
next
  case (Cons r rs)
  have sep: "well_separated (r # rs)" and wf: "\<forall>q \<in> set (r # rs). wf_range q"
    using Cons.prems by (simp_all add: canonical_def)
  have "well_separated rs" using sep by (cases rs) simp_all
  then have "canonical rs" using wf by (simp add: canonical_def)
  then have IH: "pairwise_disjoint rs" by (rule Cons.IH)
  have lb: "\<forall>q \<in> set rs. snd r + 2 \<le> fst q" by (rule canonical_lower_bound [OF sep wf])
  have head: "{fst r .. snd r} \<inter> {fst (rs ! k) .. snd (rs ! k)} = {}" if "k < length rs" for k
    using lb that by (fastforce dest: nth_mem)
  show ?case
    unfolding pairwise_disjoint_def
  proof (intro allI impI)
    fix i j
    assume i: "i < length (r # rs)" and j: "j < length (r # rs)" and ne: "i \<noteq> j"
    show "{fst ((r # rs) ! i) .. snd ((r # rs) ! i)} \<inter>
          {fst ((r # rs) ! j) .. snd ((r # rs) ! j)} = {}"
    proof (cases i)
      case 0
      then obtain k where "j = Suc k" using ne by (cases j) auto
      then show ?thesis using 0 head [of k] j by simp
    next
      case (Suc i')
      show ?thesis
      proof (cases j)
        case 0
        then show ?thesis using Suc head [of i'] i by (simp add: Int_commute)
      next
        case (Suc j')
        then show ?thesis
          using \<open>i = Suc i'\<close> IH i j ne by (simp add: pairwise_disjoint_def)
      qed
    qed
  qed
qed

lemma blend_step_inv:
  assumes inv: "blend_inv bl" and wf: "wf_range r" and le: "fst (last bl) \<le> fst r"
  shows "blend_inv (blend_step bl r) \<and> points (blend_step bl r) = points bl \<union> {fst r .. snd r}
         \<and> fst (last (blend_step bl r)) \<le> fst r"
proof -
  obtain start stop where r: "r = (start, stop)" by (cases r)
  from inv obtain bs ls le' where bl: "bl = bs @ [(ls, le')]"
    by (cases bl rule: rev_cases) (auto simp: blend_inv_def)
  have wfbs: "\<forall>q \<in> set bs. wf_range q" and wfl: "ls \<le> le'" and sep: "well_separated (bs @ [(ls, le')])"
    using inv by (auto simp: blend_inv_def canonical_def bl wf_range_def)
  have ss: "start \<le> stop" using wf by (simp add: r wf_range_def)
  have ls: "ls \<le> start" using le by (simp add: bl r)
  consider (merge) "start \<le> le' + 1" "stop \<ge> le'"
    | (skip) "\<not> (start \<le> le' + 1 \<and> stop \<ge> le')" "start \<le> le'" "stop \<le> le'"
    | (add) "start > le' + 1"
    using ss by linarith
  then show ?thesis
  proof cases
    case merge
    then have st: "blend_step bl r = bs @ [(ls, stop)]"
      by (simp add: blend_step_def bl r)
    have "well_separated (bs @ [(ls, stop)])" by (rule well_separated_snoc_replace [OF sep])
    moreover have "{ls .. stop} = {ls .. le'} \<union> {start .. stop}" using merge ls ss by auto
    ultimately show ?thesis unfolding st using wfbs ls ss
      by (simp add: blend_inv_def canonical_def wf_range_def bl r Un_assoc)
  next
    case skip
    then have st: "blend_step bl r = bl"
      by (simp add: blend_step_def bl r)
    have "{start .. stop} \<subseteq> {ls .. le'}" using skip ls by auto
    then have "points bl \<union> {start .. stop} = points bl" by (auto simp: bl)
    then show ?thesis unfolding st using inv le by (simp add: r)
  next
    case add
    then have st: "blend_step bl r = bs @ [(ls, le'), (start, stop)]"
      by (simp add: blend_step_def bl r)
    have "well_separated (bs @ [(ls, le'), (start, stop)])"
      using well_separated_snoc_add [OF sep, of start stop] add by simp
    then show ?thesis unfolding st using wfbs wfl ss
      by (auto simp: blend_inv_def canonical_def wf_range_def bl r)
  qed
qed

lemma blend_fold_inv:
  "blend_inv bl \<Longrightarrow> \<forall>r \<in> set rs. wf_range r \<Longrightarrow> sorted (map fst rs) \<Longrightarrow>
   \<forall>r \<in> set rs. fst (last bl) \<le> fst r \<Longrightarrow>
     blend_inv (foldl blend_step bl rs) \<and> points (foldl blend_step bl rs) = points bl \<union> points rs"
proof (induction rs arbitrary: bl)
  case Nil
  then show ?case by simp
next
  case (Cons r rs)
  have step: "blend_inv (blend_step bl r) \<and> points (blend_step bl r) = points bl \<union> {fst r .. snd r}
         \<and> fst (last (blend_step bl r)) \<le> fst r"
    using Cons.prems by (intro blend_step_inv) simp_all
  have "\<forall>q \<in> set rs. fst (last (blend_step bl r)) \<le> fst q"
    using step Cons.prems(3) by fastforce
  then have "blend_inv (foldl blend_step (blend_step bl r) rs) \<and>
      points (foldl blend_step (blend_step bl r) rs) = points (blend_step bl r) \<union> points rs"
    using Cons.IH [of "blend_step bl r"] step Cons.prems by simp
  then show ?case using step by (simp add: Un_assoc)
qed

lemma blend_coverage_ranges_canonical:
  assumes ne: "ranges \<noteq> []" and wf: "\<forall>r \<in> set ranges. wf_range r"
  shows "\<exists>out. blend_coverage_ranges ranges = Inr out \<and> out \<noteq> [] \<and> canonical out
           \<and> points out = points ranges"
proof -
  have "sort_key fst ranges \<noteq> []" using ne by (metis length_sort list.size(3) length_0_conv)
  then obtain r0 rest where srt: "sort_key fst ranges = r0 # rest" by (cases "sort_key fst ranges") auto
  have sorted: "sorted (map fst (r0 # rest))" using sorted_sort_key [of fst ranges] by (simp add: srt)
  have seteq: "set (r0 # rest) = set ranges" using set_sort [of fst ranges] by (simp add: srt)
  have wf': "\<forall>r \<in> set (r0 # rest). wf_range r" using wf seteq by blast
  have inv0: "blend_inv [r0]" using wf' by (simp add: blend_inv_def canonical_def)
  have "\<forall>r \<in> set (r0 # rest). fst (last [r0]) \<le> fst r" using sorted by auto
  from blend_fold_inv [OF inv0 wf' sorted this]
  have "blend_inv (foldl blend_step [r0] (r0 # rest))"
    and "points (foldl blend_step [r0] (r0 # rest)) = points [r0] \<union> points (r0 # rest)" by blast+
  moreover have "points [r0] \<union> points (r0 # rest) = points ranges"
    using points_set_cong [OF seteq] by auto
  ultimately show ?thesis by (simp add: blend_coverage_ranges_def srt blend_inv_def)
qed

text \<open>
  Claim C1. For every non-empty list of ranges, each with \<open>start \<le> end\<close>,
  \<open>blend_coverage_ranges\<close> returns a list of ranges that is sorted by start, in which each
  range starts at least 2 after the end of the one before it, whose ranges are pairwise
  disjoint, and whose integer points are exactly the integer points of the input ranges.
\<close>

theorem blend_coverage_ranges_correct:
  assumes "ranges \<noteq> []" and "\<forall>r \<in> set ranges. fst r \<le> snd r"
  shows "\<exists>out. blend_coverage_ranges ranges = Inr out \<and> sorted (map fst out)
           \<and> well_separated out \<and> pairwise_disjoint out \<and> points out = points ranges"
proof -
  from assms obtain out where "blend_coverage_ranges ranges = Inr out" "canonical out"
      "points out = points ranges"
    using blend_coverage_ranges_canonical [of ranges] by (auto simp: wf_range_def)
  then show ?thesis
    using canonical_sorted canonical_pairwise_disjoint by (auto simp: canonical_def)
qed

theorem blend_coverage_ranges_correct_witness:
  "blend_coverage_ranges [(1, 3), (2, 8), (12, 14)] = Inr [(1, 8), (12, 14)]
   \<and> sorted (map fst [(1 :: int, 8 :: int), (12, 14)])
   \<and> well_separated [(1, 8), (12, 14)]
   \<and> pairwise_disjoint [(1, 8), (12, 14)]
   \<and> points [(1, 8), (12, 14)] = points [(1, 3), (2, 8), (12, 14)]"
proof -
  have run: "blend_coverage_ranges [(1, 3), (2, 8), (12, 14)] = Inr [(1, 8), (12, 14)]"
    by (simp add: blend_coverage_ranges_def blend_step_def)
  have "\<forall>r \<in> set [(1 :: int, 3 :: int), (2, 8), (12, 14)]. fst r \<le> snd r" by simp
  then show ?thesis
    using blend_coverage_ranges_correct [of "[(1, 3), (2, 8), (12, 14)]"] run by simp
qed

lemma canonical_tail: "canonical (r # rs) \<Longrightarrow> canonical rs"
  by (cases rs) (simp_all add: canonical_def)

lemma canonical_points_above:
  assumes "canonical (r # rs)" and "p \<in> points rs"
  shows "snd r + 2 \<le> p"
proof -
  from assms(2) obtain q where q: "q \<in> set rs" "fst q \<le> p" by (auto simp: points_def)
  have "snd r + 2 \<le> fst q"
    using canonical_lower_bound [of r rs] assms(1) q(1) by (simp add: canonical_def)
  then show ?thesis using q(2) by simp
qed

lemma canonical_head_wf: "canonical (r # rs) \<Longrightarrow> fst r \<le> snd r"
  by (simp add: canonical_def wf_range_def)

lemma canonical_points_lower:
  assumes "canonical (r # rs)" and "p \<in> points (r # rs)"
  shows "fst r \<le> p"
  using canonical_points_above [OF assms(1), of p] canonical_head_wf [OF assms(1)] assms(2)
  by auto

lemma canonical_head_eq:
  assumes cx: "canonical (r # xs)" and cy: "canonical (q # ys)"
    and pts: "points (r # xs) = points (q # ys)"
  shows "r = q"
proof -
  have wr: "fst r \<le> snd r" and wq: "fst q \<le> snd q"
    using cx cy by (simp_all add: canonical_head_wf)
  have "fst r \<in> points (q # ys)" using wr pts [symmetric] by simp
  then have a: "fst q \<le> fst r" by (rule canonical_points_lower [OF cy])
  have "fst q \<in> points (r # xs)" using wq pts by simp
  then have b: "fst r \<le> fst q" by (rule canonical_points_lower [OF cx])
  have f: "fst r = fst q" using a b by simp
  have c: "\<not> snd r < snd q"
  proof
    assume lt: "snd r < snd q"
    then have "snd r + 1 \<in> points (q # ys)" using wr f by simp
    then have "snd r + 1 \<in> points (r # xs)" by (simp only: pts)
    then have "snd r + 1 \<in> points xs" by simp
    then show False using canonical_points_above [OF cx] by fastforce
  qed
  have d: "\<not> snd q < snd r"
  proof
    assume lt: "snd q < snd r"
    then have "snd q + 1 \<in> points (r # xs)" using wq f by simp
    then have "snd q + 1 \<in> points (q # ys)" by (simp only: pts)
    then have "snd q + 1 \<in> points ys" by simp
    then show False using canonical_points_above [OF cy] by fastforce
  qed
  show ?thesis using f c d by (simp add: prod_eq_iff)
qed

lemma canonical_unique:
  "canonical xs \<Longrightarrow> canonical ys \<Longrightarrow> points xs = points ys \<Longrightarrow> xs = ys"
proof (induction xs arbitrary: ys)
  case Nil
  show ?case
  proof (cases ys)
    case Nil
    then show ?thesis by simp
  next
    case (Cons q ys')
    then have "fst q \<in> points ys" using Nil.prems(2) by (simp add: canonical_head_wf)
    then show ?thesis using Nil.prems(3) by simp
  qed
next
  case (Cons r xs)
  show ?case
  proof (cases ys)
    case Nil
    have "fst r \<in> points (r # xs)" using Cons.prems(1) by (simp add: canonical_head_wf)
    then show ?thesis using Cons.prems(3) Nil by simp
  next
    case (Cons q ys')
    have cy: "canonical (q # ys')" using Cons.prems(2) Cons by simp
    have pts: "points (r # xs) = points (q # ys')" using Cons.prems(3) Cons by simp
    have rq: "r = q" by (rule canonical_head_eq [OF Cons.prems(1) cy pts])
    have dx: "{fst r .. snd r} \<inter> points xs = {}"
      using canonical_points_above [OF Cons.prems(1)] by fastforce
    have dy: "{fst r .. snd r} \<inter> points ys' = {}"
      using canonical_points_above [OF cy] rq by fastforce
    have "{fst r .. snd r} \<union> points xs = {fst r .. snd r} \<union> points ys'"
      using pts rq by simp
    then have "points xs = points ys'" using dx dy by blast
    then have "xs = ys'"
      using Cons.IH [of ys'] canonical_tail [OF Cons.prems(1)] canonical_tail [OF cy] by simp
    then show ?thesis using rq Cons by simp
  qed
qed

text \<open>
  The result does not depend on the order of the ranges, nor on their repetitions: the
  order in which a Python set of sensors is iterated does not matter.
\<close>

lemma blend_coverage_ranges_set_cong:
  assumes "set xs = set ys" and "\<forall>r \<in> set xs. fst r \<le> snd r"
  shows "blend_coverage_ranges xs = blend_coverage_ranges ys"
proof (cases "xs = []")
  case True
  then have "ys = []" using assms(1) by simp
  then show ?thesis using True by simp
next
  case False
  then have ney: "ys \<noteq> []" using assms(1) by auto
  have wfx: "\<forall>r \<in> set xs. wf_range r" and wfy: "\<forall>r \<in> set ys. wf_range r"
    using assms by (simp_all add: wf_range_def)
  obtain ox where ox: "blend_coverage_ranges xs = Inr ox" "canonical ox" "points ox = points xs"
    using blend_coverage_ranges_canonical [OF False wfx] by blast
  obtain oy where oy: "blend_coverage_ranges ys = Inr oy" "canonical oy" "points oy = points ys"
    using blend_coverage_ranges_canonical [OF ney wfy] by blast
  have "points ox = points oy" using ox(3) oy(3) points_set_cong [OF assms(1)] by simp
  then have "ox = oy" by (rule canonical_unique [OF ox(2) oy(2)])
  then show ?thesis using ox(1) oy(1) by simp
qed

text \<open>
  Claim C7. \<open>blend_coverage_ranges\<close> is idempotent: for every non-empty list of ranges
  (each with \<open>start \<le> end\<close>, as the ranges of the spec are), blending the output of a
  blend returns that output unchanged.
\<close>

theorem blend_coverage_ranges_idempotent:
  assumes "ranges \<noteq> []" and "\<forall>r \<in> set ranges. fst r \<le> snd r"
  shows "\<exists>out. blend_coverage_ranges ranges = Inr out \<and> blend_coverage_ranges out = Inr out"
proof -
  have wf: "\<forall>r \<in> set ranges. wf_range r" using assms(2) by (simp add: wf_range_def)
  obtain out where out: "blend_coverage_ranges ranges = Inr out" "out \<noteq> []" "canonical out"
    using blend_coverage_ranges_canonical [OF assms(1) wf] by blast
  have "\<forall>r \<in> set out. wf_range r" using out(3) by (simp add: canonical_def)
  then obtain out' where out': "blend_coverage_ranges out = Inr out'" "canonical out'"
      "points out' = points out"
    using blend_coverage_ranges_canonical [OF out(2)] by blast
  have "out' = out" by (rule canonical_unique [OF out'(2) out(3) out'(3)])
  then show ?thesis using out(1) out'(1) by simp
qed

theorem blend_coverage_ranges_idempotent_witness:
  "blend_coverage_ranges [(4, 9), (1, 3), (2, 2), (12, 14), (6, 10)] = Inr [(1, 10), (12, 14)]
   \<and> blend_coverage_ranges [(1, 10), (12, 14)] = Inr [(1, 10), (12, 14)]"
proof -
  have run: "blend_coverage_ranges [(4, 9), (1, 3), (2, 2), (12, 14), (6, 10)] = Inr [(1, 10), (12, 14)]"
    by (simp add: blend_coverage_ranges_def blend_step_def)
  have "\<forall>r \<in> set [(4 :: int, 9 :: int), (1, 3), (2, 2), (12, 14), (6, 10)]. fst r \<le> snd r" by simp
  then show ?thesis
    using blend_coverage_ranges_idempotent [of "[(4, 9), (1, 3), (2, 2), (12, 14), (6, 10)]"] run
    by simp
qed

section \<open>Properties of the coverage of a row\<close>

lemma get_coverage_at_row_wf:
  "get_coverage_at_row sensor row = Some r \<Longrightarrow> fst r \<le> snd r"
  by (auto simp: get_coverage_at_row_def Let_def split: if_splits)

text \<open>
  Claim C8. For every sensor (a coordinate and a radius) and every row \<open>r\<close>, the range of
  the sensor on the row is absent exactly when \<open>radius - |r - y| < 0\<close>, and is otherwise
  \<open>[x - span, x + span]\<close> with \<open>span = radius - |r - y|\<close>; for a radius \<open>\<ge> 0\<close>, on the
  sensor's own row it is \<open>[x - radius, x + radius]\<close>.
\<close>

theorem get_coverage_at_row_spec:
  "(get_coverage_at_row (Sensor (Coord sx sy) radius) r = None \<longleftrightarrow> radius - \<bar>r - sy\<bar> < 0)
   \<and> (\<not> radius - \<bar>r - sy\<bar> < 0 \<longrightarrow>
        get_coverage_at_row (Sensor (Coord sx sy) radius) r =
          Some (sx - (radius - \<bar>r - sy\<bar>), sx + (radius - \<bar>r - sy\<bar>)))
   \<and> (0 \<le> radius \<longrightarrow>
        get_coverage_at_row (Sensor (Coord sx sy) radius) sy = Some (sx - radius, sx + radius))"
  by (simp add: get_coverage_at_row_def Let_def)

theorem get_coverage_at_row_spec_witness:
  "get_coverage_at_row (Sensor (Coord 8 7) 9) 10 = Some (2, 14)
   \<and> get_coverage_at_row (Sensor (Coord 8 7) 9) 17 = None
   \<and> get_coverage_at_row (Sensor (Coord 8 7) 9) 7 = Some (- 1, 17)"
  using get_coverage_at_row_spec [of 8 7 9 10] get_coverage_at_row_spec [of 8 7 9 17]
  by simp

lemma get_sensors_coverage_at_row_unreached:
  "\<forall>sensor \<in> set sensors. get_coverage_at_row sensor row = None \<Longrightarrow>
     get_sensors_coverage_at_row sensors row = Inl IndexError"
  by (simp add: get_sensors_coverage_at_row_def blend_coverage_ranges_def)

text \<open>
  Claim C2. The claim is that \<open>blend_coverage_ranges\<close> is never called with no range.
  \<open>get_sensors_coverage_at_row\<close> calls it without looking at the number of ranges: for
  the sensor at \<open>(0, 0)\<close> with its beacon at \<open>(1, 0)\<close>, no range reaches row 2 and the call
  raises \<open>IndexError\<close>.
\<close>

theorem get_sensors_coverage_at_row_raises:
  "get_sensors_coverage_at_row (make_sensors [(Coord 0 0, Coord 1 0)]) 2 = Inl IndexError"
  by (simp add: get_sensors_coverage_at_row_def make_sensors_def distance_def
      get_coverage_at_row_def blend_coverage_ranges_def)

text \<open>
  Claim C4. The claim is that \<open>part2\<close> returns the sentinel \<open>-1\<close> whenever no gap of one
  point qualifies, also when rows are not covered at all. For the sensor at \<open>(0, 0)\<close> with
  its beacon at \<open>(1, 0)\<close> and a search area of size 2, rows 0 and 1 have one range each and
  row 2 has none: \<open>part2\<close> raises \<open>IndexError\<close> there.
\<close>

theorem part2_uncovered_row_raises:
  "part2 [(Coord 0 0, Coord 1 0)] 2 = Inl IndexError"
  by (simp add: part2_def part2_search_def upto.simps get_sensors_coverage_at_row_def
      make_sensors_def distance_def get_coverage_at_row_def blend_coverage_ranges_def
      blend_step_def)

text \<open>
  The coverage of a row depends on the set of the sensors only, not on the order in which
  the set is iterated.
\<close>

lemma get_sensors_coverage_at_row_set_cong:
  assumes "set sensors = set sensors'"
  shows "get_sensors_coverage_at_row sensors row = get_sensors_coverage_at_row sensors' row"
proof -
  let ?rs = "\<lambda>ss. map (\<lambda>sensor. the (get_coverage_at_row sensor row))
      (filter (\<lambda>sensor. get_coverage_at_row sensor row \<noteq> None) ss)"
  have "set (?rs sensors) = set (?rs sensors')" using assms by simp
  moreover have "\<forall>r \<in> set (?rs sensors). fst r \<le> snd r"
    using get_coverage_at_row_wf by fastforce
  ultimately have "blend_coverage_ranges (?rs sensors) = blend_coverage_ranges (?rs sensors')"
    by (rule blend_coverage_ranges_set_cong)
  then show ?thesis by (simp add: get_sensors_coverage_at_row_def)
qed

section \<open>Properties of \<open>part1\<close>\<close>

text \<open>
  On a row that a sensor reaches, \<open>part1\<close> is the sum of \<open>end - start + 1\<close> over the
  blended ranges of the row, minus the number of distinct beacons on the row.
\<close>

lemma part1_on_covered_row:
  assumes "get_sensors_coverage_at_row (make_sensors data) row = Inr merged"
  shows "part1 data row =
     Inr ((\<Sum>(start, stop) \<leftarrow> merged. stop - start + 1)
          - int (card {b \<in> snd ` set data. cy b = row}))"
proof -
  have "set (filter (\<lambda>beacon. cy beacon = row) (map snd data)) = {b \<in> snd ` set data. cy b = row}"
    by auto
  then have "length (remdups (filter (\<lambda>beacon. cy beacon = row) (map snd data)))
      = card {b \<in> snd ` set data. cy b = row}"
    by (simp only: length_remdups_card_conv)
  then show ?thesis using assms by (simp add: part1_def Let_def)
qed

text \<open>
  Claim C5. The claim is that for every mapping of sensors to beacons and every row,
  \<open>part1\<close> is the sum of \<open>end - start + 1\<close> over the blended ranges of the row, minus the
  number of distinct beacons on the row. For the sensor at \<open>(0, 0)\<close> with its beacon at
  \<open>(1, 0)\<close> and row 2, no sensor reaches the row and no beacon is on it, so that the sum is
  empty and the claimed count is 0; \<open>part1\<close> raises \<open>IndexError\<close> instead.
\<close>

theorem part1_uncovered_row_raises:
  "part1 [(Coord 0 0, Coord 1 0)] 2 = Inl IndexError
   \<and> filter (\<lambda>sensor. get_coverage_at_row sensor 2 \<noteq> None)
        (make_sensors [(Coord 0 0, Coord 1 0)]) = []
   \<and> card {b \<in> snd ` set [(Coord 0 0, Coord 1 0)]. cy b = 2} = 0"
  by (simp add: part1_def get_sensors_coverage_at_row_def make_sensors_def distance_def
      get_coverage_at_row_def blend_coverage_ranges_def)

section \<open>Properties of \<open>part2\<close>\<close>

lemma blend_step_nonempty: "bl \<noteq> [] \<Longrightarrow> blend_step bl r \<noteq> []"
  by (simp add: blend_step_def split: prod.splits)

lemma blend_fold_nonempty: "bl \<noteq> [] \<Longrightarrow> foldl blend_step bl rs \<noteq> []"
  by (induction rs arbitrary: bl) (simp_all add: blend_step_nonempty)

lemma blend_coverage_ranges_nonempty: "blend_coverage_ranges ranges = Inr out \<Longrightarrow> out \<noteq> []"
proof (cases "sort_key fst ranges")
  case Nil
  assume "blend_coverage_ranges ranges = Inr out"
  then show ?thesis using Nil by (simp add: blend_coverage_ranges_def)
next
  case (Cons r0 rest)
  assume "blend_coverage_ranges ranges = Inr out"
  then have "out = foldl blend_step [r0] (r0 # rest)"
    using Cons by (simp add: blend_coverage_ranges_def)
  then show ?thesis using blend_fold_nonempty [of "[r0]" "r0 # rest"] by simp
qed

lemma get_sensors_coverage_at_row_nonempty:
  "get_sensors_coverage_at_row sensors row = Inr coverage \<Longrightarrow> coverage \<noteq> []"
  by (simp add: get_sensors_coverage_at_row_def blend_coverage_ranges_nonempty)

lemma scan_rows_result:
  "scan_rows sensors rows (rc, cands) = Inr (rc', cands') \<Longrightarrow>
     (\<forall>r \<in> set rows. \<exists>c. get_sensors_coverage_at_row sensors r = Inr c \<and> rc' r = Some c)
     \<and> (\<forall>r. r \<notin> set rows \<longrightarrow> rc' r = rc r)
     \<and> set cands' \<subseteq> set cands \<union> set rows"
proof (induction rows arbitrary: rc cands)
  case Nil
  then show ?case by simp
next
  case (Cons row rows)
  from Cons.prems obtain coverage where cov: "get_sensors_coverage_at_row sensors row = Inr coverage"
    by (cases "get_sensors_coverage_at_row sensors row") simp_all
  have ne: "coverage \<noteq> []" by (rule get_sensors_coverage_at_row_nonempty [OF cov])
  let ?cands = "if length coverage > 1 then cands @ [row] else cands"
  have rec: "scan_rows sensors rows (rc(row \<mapsto> coverage), ?cands) = Inr (rc', cands')"
    using Cons.prems cov ne by simp
  note IH = Cons.IH [OF rec]
  have a: "\<forall>r. r \<notin> set (row # rows) \<longrightarrow> rc' r = rc r" using IH by simp
  have b: "set cands' \<subseteq> set cands \<union> set (row # rows)" using IH by (auto split: if_splits)
  have c: "\<exists>c. get_sensors_coverage_at_row sensors r = Inr c \<and> rc' r = Some c"
    if "r \<in> set (row # rows)" for r
  proof (cases "r \<in> set rows")
    case True
    then show ?thesis using IH by blast
  next
    case False
    then have "r = row" using that by simp
    moreover have "rc' r = (rc(row \<mapsto> coverage)) r" using IH False by blast
    ultimately show ?thesis using cov by simp
  qed
  show ?case using a b c by blast
qed

lemma covered_in_Some:
  "covered_in rc r x \<Longrightarrow> \<exists>c. rc r = Some c \<and> is_covered c x"
  by (auto simp: covered_in_def split: option.splits if_splits)

lemma check_pairs_Some:
  "check_pairs rc row pairs = Some (x, r) \<Longrightarrow>
     r = row \<and> (\<exists>left right. (left, right) \<in> set pairs \<and> fst right - snd left = 2
        \<and> x = snd left + 1 \<and> covered_in rc (row - 1) x \<and> covered_in rc (row + 1) x)"
proof (induction pairs)
  case Nil
  then show ?case by simp
next
  case (Cons p pairs)
  obtain left right where p: "p = (left, right)" by (cases p)
  show ?case
  proof (cases "fst right - snd left = 2 \<and> covered_in rc (row - 1) (snd left + 1)
      \<and> covered_in rc (row + 1) (snd left + 1)")
    case True
    then have "x = snd left + 1 \<and> r = row" using Cons.prems by (simp add: p Let_def)
    moreover have "(left, right) \<in> set (p # pairs)" by (simp add: p)
    ultimately show ?thesis using True by blast
  next
    case False
    then have "check_pairs rc row pairs = Some (x, r)"
      using Cons.prems by (auto simp: p Let_def split: if_splits)
    then show ?thesis using Cons.IH by auto
  qed
qed

lemma check_pairs_Cons:
  "check_pairs rc row ((left, right) # pairs) =
     (if fst right - snd left = 2 \<and> covered_in rc (row - 1) (snd left + 1)
         \<and> covered_in rc (row + 1) (snd left + 1)
      then Some (snd left + 1, row) else check_pairs rc row pairs)"
  by (simp add: Let_def)

lemma check_pairs_None:
  "check_pairs rc row pairs = None \<longleftrightarrow>
     (\<forall>(left, right) \<in> set pairs. \<not> (fst right - snd left = 2
        \<and> covered_in rc (row - 1) (snd left + 1) \<and> covered_in rc (row + 1) (snd left + 1)))"
proof (induction pairs)
  case Nil
  then show ?case by simp
next
  case (Cons p pairs)
  obtain left right where p: "p = (left, right)" by (cases p)
  show ?case using Cons.IH by (simp add: p check_pairs_Cons del: check_pairs.simps)
qed

lemma search_candidates_Some:
  "search_candidates rc cands = Inr (Some (x, row)) \<Longrightarrow>
     row \<in> set cands \<and> (\<exists>coverage. rc row = Some coverage
        \<and> check_pairs rc row (pairwise_list coverage) = Some (x, row))"
proof (induction cands)
  case Nil
  then show ?case by simp
next
  case (Cons r cands)
  from Cons.prems obtain coverage where cov: "rc r = Some coverage"
    by (cases "rc r") simp_all
  show ?case
  proof (cases "check_pairs rc r (pairwise_list coverage)")
    case None
    then show ?thesis using Cons cov by simp
  next
    case (Some found)
    then have f: "found = (x, row)" using Cons.prems cov by simp
    then have "row = r" using Some check_pairs_Some [of rc r "pairwise_list coverage" x row] by simp
    then show ?thesis using Some f cov by simp
  qed
qed

lemma part2_search_Some:
  assumes "part2_search data search_area_size = Inr (Some (x, row))"
  shows "\<exists>coverage above below left right.
      get_sensors_coverage_at_row (make_sensors data) row = Inr coverage
      \<and> (left, right) \<in> set (pairwise_list coverage)
      \<and> fst right - snd left = 2 \<and> x = snd left + 1
      \<and> 0 \<le> row - 1 \<and> row + 1 \<le> search_area_size
      \<and> get_sensors_coverage_at_row (make_sensors data) (row - 1) = Inr above
      \<and> is_covered above x
      \<and> get_sensors_coverage_at_row (make_sensors data) (row + 1) = Inr below
      \<and> is_covered below x"
proof -
  let ?sensors = "make_sensors data"
  from assms obtain rc cands where
    scan: "scan_rows ?sensors [0 .. search_area_size] (Map.empty, []) = Inr (rc, cands)"
    and search: "search_candidates rc cands = Inr (Some (x, row))"
    by (auto simp: part2_search_def Let_def split: sum.splits)
  note sr = scan_rows_result [OF scan]
  have inside: "\<exists>c. get_sensors_coverage_at_row ?sensors r = Inr c \<and> rc r = Some c"
    if "r \<in> set [0 .. search_area_size]" for r
    using sr that by blast
  have outside: "rc r = None" if "r \<notin> set [0 .. search_area_size]" for r
    using sr that by simp
  have known: "0 \<le> r \<and> r \<le> search_area_size \<and> get_sensors_coverage_at_row ?sensors r = Inr c"
    if "rc r = Some c" for r c
  proof -
    have "r \<in> set [0 .. search_area_size]" using outside [of r] that by auto
    then show ?thesis using inside [of r] that by auto
  qed
  from search_candidates_Some [OF search] obtain coverage where
    cov: "rc row = Some coverage"
    and chk: "check_pairs rc row (pairwise_list coverage) = Some (x, row)" by blast
  from check_pairs_Some [OF chk] obtain left right where
    pair: "(left, right) \<in> set (pairwise_list coverage)" "fst right - snd left = 2"
      "x = snd left + 1"
    and ab: "covered_in rc (row - 1) x" "covered_in rc (row + 1) x" by blast
  from covered_in_Some [OF ab(1)] obtain above where
    above: "rc (row - 1) = Some above" "is_covered above x" by blast
  from covered_in_Some [OF ab(2)] obtain below where
    below: "rc (row + 1) = Some below" "is_covered below x" by blast
  show ?thesis
    using known [OF cov] known [OF above(1)] known [OF below(1)] pair above(2) below(2)
    by blast
qed

lemma part2_of_search:
  "part2_search data search_area_size = Inr (Some (x, row)) \<Longrightarrow>
     part2 data search_area_size = Inr (x * 4000000 + row)"
  by (simp add: part2_def)

lemma puzzle_example_search: "part2_search puzzle_example 20 = Inr (Some (14, 11))"
  by (simp add: part2_search_def puzzle_example_def upto.simps get_sensors_coverage_at_row_def
      make_sensors_def distance_def get_coverage_at_row_def blend_coverage_ranges_def
      blend_step_def covered_in_def)

lemma puzzle_example_part1: "part1 puzzle_example 10 = Inr 26"
  by (simp add: part1_def puzzle_example_def get_sensors_coverage_at_row_def
      make_sensors_def distance_def get_coverage_at_row_def blend_coverage_ranges_def
      blend_step_def)

lemma offside_example_rows:
  "get_sensors_coverage_at_row (make_sensors offside_example) 0 = Inr [(8, 8), (10, 10), (12, 12)]"
  "get_sensors_coverage_at_row (make_sensors offside_example) 1 = Inr [(7, 9), (11, 13)]"
  "get_sensors_coverage_at_row (make_sensors offside_example) 2 = Inr [(8, 8), (10, 10), (12, 12)]"
  by (simp_all add: offside_example_def get_sensors_coverage_at_row_def
      make_sensors_def distance_def get_coverage_at_row_def blend_coverage_ranges_def
      blend_step_def)

lemma offside_example_search: "part2_search offside_example 2 = Inr (Some (10, 1))"
  by (simp add: part2_search_def upto.simps offside_example_rows covered_in_def)

text \<open>
  Claim C3, as amended. In \<open>part2\<close>, a candidate \<open>x = left.end + 1\<close> that comes from a gap of
  exactly 2 between two adjacent blended ranges of a row is returned only if the row
  above and the row below are both among the scanned rows \<open>0 .. search_area_size\<close> and
  \<open>x\<close> is covered by the blended ranges of both of them. Whether \<open>x\<close> lies within
  \<open>0 .. search_area_size\<close> is not looked at.
\<close>

theorem part2_reports_only_confirmed:
  assumes "part2_search data search_area_size = Inr (Some (x, row))"
  shows "part2 data search_area_size = Inr (x * 4000000 + row)
    \<and> (\<exists>coverage above below left right.
      get_sensors_coverage_at_row (make_sensors data) row = Inr coverage
      \<and> (left, right) \<in> set (pairwise_list coverage)
      \<and> fst right - snd left = 2 \<and> x = snd left + 1
      \<and> 0 \<le> row - 1 \<and> row + 1 \<le> search_area_size
      \<and> get_sensors_coverage_at_row (make_sensors data) (row - 1) = Inr above
      \<and> is_covered above x
      \<and> get_sensors_coverage_at_row (make_sensors data) (row + 1) = Inr below
      \<and> is_covered below x)"
  using part2_of_search [OF assms] part2_search_Some [OF assms] by simp

theorem part2_reports_only_confirmed_witness:
  "part2_search puzzle_example 20 = Inr (Some (14, 11))
    \<and> part2 puzzle_example 20 = Inr 56000011
    \<and> (\<exists>coverage above below left right.
      get_sensors_coverage_at_row (make_sensors puzzle_example) 11 = Inr coverage
      \<and> (left, right) \<in> set (pairwise_list coverage)
      \<and> fst right - snd left = 2 \<and> 14 = snd left + 1
      \<and> get_sensors_coverage_at_row (make_sensors puzzle_example) 10 = Inr above
      \<and> is_covered above 14
      \<and> get_sensors_coverage_at_row (make_sensors puzzle_example) 12 = Inr below
      \<and> is_covered below 14)"
  using part2_reports_only_confirmed [OF puzzle_example_search] puzzle_example_search
  by simp

text \<open>
  Counterexample to claim C3 as stated: with a search area of size 2, \<open>part2\<close> returns the
  point \<open>(10, 1)\<close>, whose \<open>x\<close> is outside \<open>0 .. 2\<close>, and it returns it because \<open>x = 10\<close> is
  covered, not uncovered, on the rows 0 and 2 above and below.
\<close>

theorem part2_reports_outside_search_area:
  "part2 offside_example 2 = Inr (10 * 4000000 + 1)
   \<and> part2_search offside_example 2 = Inr (Some (10, 1))
   \<and> (2 :: int) < 10
   \<and> get_sensors_coverage_at_row (make_sensors offside_example) 0 = Inr [(8, 8), (10, 10), (12, 12)]
   \<and> get_sensors_coverage_at_row (make_sensors offside_example) 2 = Inr [(8, 8), (10, 10), (12, 12)]
   \<and> is_covered [(8, 8), (10, 10), (12, 12)] 10"
  by (simp add: part2_def offside_example_search offside_example_rows)

text \<open>
  Claim C9. A point that the search of \<open>part2\<close> returns never lies on the first or the last
  row of the search area: its row is strictly between 0 and \<open>search_area_size\<close>.
\<close>

theorem part2_never_reports_boundary_rows:
  assumes "part2_search data search_area_size = Inr (Some (x, row))"
  shows "0 < row \<and> row < search_area_size
    \<and> part2 data search_area_size = Inr (x * 4000000 + row)"
  using part2_of_search [OF assms] part2_search_Some [OF assms] by auto

theorem part2_never_reports_boundary_rows_witness:
  "part2_search offside_example 2 = Inr (Some (10, 1)) \<and> (0 :: int) < 1 \<and> (1 :: int) < 2
   \<and> part2 offside_example 2 = Inr 40000001"
  using part2_never_reports_boundary_rows [OF offside_example_search] offside_example_search
  by simp

text \<open>
  Claim C6. For the pairs \<open>(left, right)\<close> of adjacent blended ranges that the search looks
  at, a gap of one point is recognised if and only if \<open>right.start - left.end = 2\<close>, and
  the missing \<open>x\<close> is then \<open>left.end + 1\<close>: a returned \<open>x\<close> comes from such a pair, and the
  loop over the pairs returns nothing exactly when no pair has that gap with \<open>x\<close> covered
  above and below. The ranges \<open>[0,4]\<close> and \<open>[7,10]\<close> never give a point; \<open>[0,4]\<close> and
  \<open>[6,10]\<close> give \<open>x = 5\<close>.
\<close>

theorem check_pairs_single_point_gap:
  "(check_pairs rc row pairs = Some (x, r) \<longrightarrow>
      r = row \<and> (\<exists>left right. (left, right) \<in> set pairs \<and> fst right - snd left = 2
        \<and> x = snd left + 1))
   \<and> (check_pairs rc row pairs = None \<longleftrightarrow>
        (\<forall>(left, right) \<in> set pairs. \<not> (fst right - snd left = 2
          \<and> covered_in rc (row - 1) (snd left + 1) \<and> covered_in rc (row + 1) (snd left + 1))))
   \<and> check_pairs rc row (pairwise_list [(0, 4), (7, 10)]) = None
   \<and> check_pairs rc row (pairwise_list [(0, 4), (6, 10)]) =
        (if covered_in rc (row - 1) 5 \<and> covered_in rc (row + 1) 5 then Some (5, row) else None)"
proof -
  have a: "check_pairs rc row pairs = Some (x, r) \<longrightarrow>
      r = row \<and> (\<exists>left right. (left, right) \<in> set pairs \<and> fst right - snd left = 2
        \<and> x = snd left + 1)"
    using check_pairs_Some [of rc row pairs x r] by blast
  have b: "check_pairs rc row (pairwise_list [(0, 4), (7, 10)]) = None" by simp
  have c: "check_pairs rc row (pairwise_list [(0, 4), (6, 10)]) =
        (if covered_in rc (row - 1) 5 \<and> covered_in rc (row + 1) 5 then Some (5, row) else None)"
    by simp
  show ?thesis using a b c check_pairs_None [of rc row pairs] by blast
qed

theorem check_pairs_single_point_gap_witness:
  "check_pairs [0 \<mapsto> [(0, 10)], 2 \<mapsto> [(0, 10)]] 1 (pairwise_list [(0, 4), (6, 10)]) = Some (5, 1)
   \<and> check_pairs [0 \<mapsto> [(0, 10)], 2 \<mapsto> [(0, 10)]] 1 (pairwise_list [(0, 4), (7, 10)]) = None
   \<and> check_pairs [0 \<mapsto> [(0, 10)], 2 \<mapsto> [(0, 10)]] 1 (pairwise_list [(0, 4), (5, 10)]) = None"
  using check_pairs_single_point_gap
    [of "[0 \<mapsto> [(0, 10)], 2 \<mapsto> [(0, 10)]]" 1 "pairwise_list [(0, 4), (6, 10)]" 5 1]
  by (simp add: covered_in_def)

section \<open>Properties of \<open>parse\<close>\<close>

lemma strip_prefix_Some: "strip_prefix p s = Some r \<Longrightarrow> s = p @ r"
  by (induction p s rule: strip_prefix.induct) (auto split: if_splits)

lemma digits1_Some:
  "digits1 s = Some (ds, r) \<Longrightarrow> s = ds @ r \<and> (\<forall>c \<in> set ds. is_digit c)"
  by (auto simp: digits1_def Let_def split: if_splits dest: set_takeWhileD)

lemma input_regex_match_Some:
  assumes "input_regex_match line = Some (g1, g2, g3, g4)"
  shows "line = ''Sensor at x='' @ g1 @ '', y='' @ g2 @ '': closest beacon is at x='' @ g3
            @ '', y='' @ g4
         \<and> (\<forall>c \<in> set (g1 @ g2 @ g3 @ g4). is_digit c)"
proof -
  from assms obtain r1 r2 r3 r4 r5 r6 r7 where
    s1: "strip_prefix ''Sensor at x='' line = Some r1" and d1: "digits1 r1 = Some (g1, r2)" and
    s2: "strip_prefix '', y='' r2 = Some r3" and d2: "digits1 r3 = Some (g2, r4)" and
    s3: "strip_prefix '': closest beacon is at x='' r4 = Some r5" and
    d3: "digits1 r5 = Some (g3, r6)" and
    s4: "strip_prefix '', y='' r6 = Some r7" and d4: "digits1 r7 = Some (g4, [])"
    unfolding input_regex_match_def
    by (auto split: option.splits prod.splits if_splits)
  note a = strip_prefix_Some [OF s1] digits1_Some [OF d1] strip_prefix_Some [OF s2]
    digits1_Some [OF d2] strip_prefix_Some [OF s3] digits1_Some [OF d3]
    strip_prefix_Some [OF s4] digits1_Some [OF d4]
  have "line = ''Sensor at x='' @ g1 @ '', y='' @ g2 @ '': closest beacon is at x='' @ g3
            @ '', y='' @ g4"
    using a by simp
  moreover have "\<forall>c \<in> set (g1 @ g2 @ g3 @ g4). is_digit c" using a by auto
  ultimately show ?thesis by simp
qed

lemma minus_not_digit: "\<not> is_digit CHR ''-''"
  by (simp add: is_digit_def)

lemma input_regex_match_no_minus:
  assumes "CHR ''-'' \<in> set line"
  shows "input_regex_match line = None"
proof (cases "input_regex_match line")
  case None
  then show ?thesis .
next
  case (Some g)
  obtain g1 g2 g3 g4 where g: "g = (g1, g2, g3, g4)" by (cases g) auto
  note m = input_regex_match_Some [OF Some [unfolded g]]
  have "CHR ''-'' \<in> set (g1 @ g2 @ g3 @ g4)"
    using assms m by auto
  then show ?thesis using m minus_not_digit by blast
qed

lemma digit_value_nonneg: "is_digit c \<Longrightarrow> (0 :: int) \<le> of_char c - 48"
  by (auto simp: is_digit_def)

lemma foldl_digits_nonneg:
  "\<forall>c \<in> set ds. is_digit c \<Longrightarrow> 0 \<le> acc \<Longrightarrow>
     0 \<le> foldl (\<lambda>acc c. acc * 10 + (of_char c - 48)) (acc :: int) ds"
proof (induction ds arbitrary: acc)
  case Nil
  then show ?case by simp
next
  case (Cons c ds)
  have "0 \<le> acc * 10 + (of_char c - 48)"
    using Cons.prems digit_value_nonneg [of c] by simp
  then show ?case using Cons.IH Cons.prems(1) by simp
qed

lemma int_of_digits_nonneg: "\<forall>c \<in> set ds. is_digit c \<Longrightarrow> 0 \<le> int_of_digits ds"
  by (simp add: int_of_digits_def foldl_digits_nonneg)

lemma set_dict_set: "set (dict_set d k v) \<subseteq> insert (k, v) (set d)"
  by (induction d k v rule: dict_set.induct) auto

lemma parse_line_nonneg: "nonneg_data d \<Longrightarrow> nonneg_data (parse_line d line)"
proof (cases "input_regex_match line")
  case None
  assume "nonneg_data d"
  then show ?thesis using None by (simp add: parse_line_def)
next
  case (Some g)
  assume d: "nonneg_data d"
  obtain g1 g2 g3 g4 where g: "g = (g1, g2, g3, g4)" by (cases g) auto
  note m = input_regex_match_Some [OF Some [unfolded g]]
  have n: "0 \<le> int_of_digits g1" "0 \<le> int_of_digits g2" "0 \<le> int_of_digits g3"
      "0 \<le> int_of_digits g4"
    using m by (simp_all add: int_of_digits_nonneg)
  have "parse_line d line = dict_set d (Coord (int_of_digits g1) (int_of_digits g2))
      (Coord (int_of_digits g3) (int_of_digits g4))"
    using Some g by (simp add: parse_line_def)
  then show ?thesis
    using d n set_dict_set [of d "Coord (int_of_digits g1) (int_of_digits g2)"
        "Coord (int_of_digits g3) (int_of_digits g4)"]
    by (fastforce simp: nonneg_data_def)
qed

lemma foldl_parse_line_nonneg: "nonneg_data d \<Longrightarrow> nonneg_data (foldl parse_line d ls)"
  by (induction ls arbitrary: d) (simp_all add: parse_line_nonneg)

text \<open>
  Claim C10. For every input string, every coordinate of a sensor or of a beacon in the
  mapping that \<open>parse\<close> returns is non-negative; a line in which a minus sign occurs does
  not match the pattern and leaves the mapping as it is.
\<close>

theorem parse_nonneg:
  "(\<forall>(sensor, beacon) \<in> set (parse puzzle_input).
      0 \<le> cx sensor \<and> 0 \<le> cy sensor \<and> 0 \<le> cx beacon \<and> 0 \<le> cy beacon)
   \<and> (CHR ''-'' \<in> set line \<longrightarrow>
        input_regex_match line = None \<and> parse_line data line = data)"
proof -
  have "nonneg_data []" by (simp add: nonneg_data_def)
  then have "nonneg_data (parse puzzle_input)"
    unfolding parse_def by (rule foldl_parse_line_nonneg)
  then show ?thesis
    using input_regex_match_no_minus [of line]
    by (auto simp: nonneg_data_def parse_line_def)
qed

lemma parse_two_lines:
  "parse (''Sensor at x=2, y=18: closest beacon is at x=-2, y=15'' @ [CHR 0x0A]
      @ ''Sensor at x=9, y=16: closest beacon is at x=10, y=16'')
   = [(Coord 9 16, Coord 10 16)]"
  by (simp add: parse_def splitlines_def is_linebreak_def parse_line_def input_regex_match_def
      digits1_def Let_def is_digit_def int_of_digits_def)

theorem parse_nonneg_witness:
  "parse (''Sensor at x=2, y=18: closest beacon is at x=-2, y=15'' @ [CHR 0x0A]
      @ ''Sensor at x=9, y=16: closest beacon is at x=10, y=16'')
     = [(Coord 9 16, Coord 10 16)]
   \<and> input_regex_match ''Sensor at x=2, y=18: closest beacon is at x=-2, y=15'' = None
   \<and> input_regex_match ''Sensor at x=9, y=16: closest beacon is at x=10, y=16''
       = Some (''9'', ''16'', ''10'', ''16'')"
proof -
  have "input_regex_match ''Sensor at x=9, y=16: closest beacon is at x=10, y=16''
       = Some (''9'', ''16'', ''10'', ''16'')"
    by (simp add: input_regex_match_def digits1_def Let_def is_digit_def)
  then show ?thesis
    using parse_nonneg [of _ "''Sensor at x=2, y=18: closest beacon is at x=-2, y=15''"]
      parse_two_lines
    by simp
qed

end
